theory Spec2Isabelle
  imports Complex_Main "HOL-Library.Log_Nat"
begin

section \<open>Python floats\<close>

text \<open>
  The scripts compute with Python floats, which are IEEE 754 binary64 numbers: every
  arithmetic operation returns the exact result rounded to the nearest number with 53
  significant bits, ties going to the even significand.  A float is modelled by the real
  number it denotes and an operation by the exact operation followed by \<open>fl\<close>.  The
  exponent range is not modelled: page sizes and pixel counts are far from overflow and
  underflow.
\<close>

definition pow2 :: "int \<Rightarrow> real" where
  "pow2 e = (if 0 \<le> e then 2 ^ nat e else 1 / 2 ^ nat (- e))"

definition round_half_even :: "real \<Rightarrow> int" where
  "round_half_even x =
     (let f = \<lfloor>x\<rfloor>; d = x - of_int f
      in if d < 1 / 2 then f
         else if 1 / 2 < d then f + 1
         else if even f then f else f + 1)"

text \<open>\<open>ilog2 x\<close> is the binary exponent of a positive \<open>x\<close>: \<open>2 ^ ilog2 x \<le> x < 2 ^ (ilog2 x + 1)\<close>.\<close>

definition ilog2 :: "real \<Rightarrow> int" where
  "ilog2 x =
     (if 1 \<le> x then int (floorlog 2 (nat \<lfloor>x\<rfloor>)) - 1
      else - int (floorlog 2 (nat (\<lceil>1 / x\<rceil> - 1))))"

definition fl :: "real \<Rightarrow> real" where
  "fl x =
     (if x = 0 then 0
      else let u = pow2 (ilog2 \<bar>x\<bar> - 52)
           in of_int (round_half_even (x / u)) * u)"

definition fadd :: "real \<Rightarrow> real \<Rightarrow> real" where
  "fadd x y = fl (x + y)"

definition fsub :: "real \<Rightarrow> real \<Rightarrow> real" where
  "fsub x y = fl (x - y)"

definition fmul :: "real \<Rightarrow> real \<Rightarrow> real" where
  "fmul x y = fl (x * y)"

definition fdiv :: "real \<Rightarrow> real \<Rightarrow> real" where
  "fdiv x y = fl (x / y)"

text \<open>An int operand of a float operation is converted to the nearest float.\<close>

definition float_of_int :: "int \<Rightarrow> real" where
  "float_of_int n = fl (of_int n)"

text \<open>\<open>int(x)\<close> of a float rounds towards zero.\<close>

definition trunc :: "real \<Rightarrow> int" where
  "trunc x = (if 0 \<le> x then \<lfloor>x\<rfloor> else \<lceil>x\<rceil>)"

text \<open>
  \<open>x // y\<close> on floats.  CPython takes the quotient from the exact remainder \<open>fmod(x, y)\<close>;
  for the quotients met here, far below \<open>2 ^ 52\<close>, the result is the floor of the exact
  quotient.
\<close>

definition ffloordiv :: "real \<Rightarrow> real \<Rightarrow> real" where
  "ffloordiv x y = of_int \<lfloor>x / y\<rfloor>"

section \<open>Python strings\<close>

text \<open>
  A string is the list of its characters, a character standing for a code point below
  256.  \<open>is_space\<close> is \<open>str.isspace\<close> on that range, which is also the class
  \<open>\s\<close> of \<open>re\<close>; \<open>is_digit\<close> is the class \<open>\d\<close> there.
\<close>

definition nl :: char where
  "nl = CHR 0x0A"

definition is_space :: "char \<Rightarrow> bool" where
  "is_space c =
     (c \<in> set [CHR 0x09, CHR 0x0A, CHR 0x0B, CHR 0x0C, CHR 0x0D, CHR 0x1C, CHR 0x1D,
                CHR 0x1E, CHR 0x1F, CHR 0x20, CHR 0x85, CHR 0xA0])"

definition is_digit :: "char \<Rightarrow> bool" where
  "is_digit c = (c \<in> set ''0123456789'')"

definition strip :: "string \<Rightarrow> string" where
  "strip s = rev (dropWhile is_space (rev (dropWhile is_space s)))"

fun startswith :: "string \<Rightarrow> string \<Rightarrow> bool" where
  "startswith s [] = True"
| "startswith [] (p # ps) = False"
| "startswith (c # cs) (p # ps) = (c = p \<and> startswith cs ps)"

text \<open>\<open>split_nl s\<close> is \<open>s.split('\n')\<close> and \<open>join_nl ls\<close> is \<open>'\n'.join(ls)\<close>.\<close>

fun split_nl :: "string \<Rightarrow> string list" where
  "split_nl [] = [[]]"
| "split_nl (c # cs) =
     (if c = nl then [] # split_nl cs
      else (c # hd (split_nl cs)) # tl (split_nl cs))"

fun join_nl :: "string list \<Rightarrow> string" where
  "join_nl [] = []"
| "join_nl [l] = l"
| "join_nl (l # m # ls) = l @ nl # join_nl (m # ls)"

section \<open>Content blocks\<close>

record ContentBlock =
  content :: string
  block_type :: string
  char_count :: int

definition is_break_point :: "ContentBlock \<Rightarrow> bool" where
  "is_break_point b = (block_type b \<in> set [''heading'', ''hr'', ''step''])"

definition TARGET_CHARS :: int where
  "TARGET_CHARS = 2750"

definition MIN_CHARS :: int where
  "MIN_CHARS = 2000"

definition MAX_CHARS :: int where
  "MAX_CHARS = 3500"

section \<open>The page packer: \<open>split_into_pages\<close>\<close>

text \<open>
  The state of the loop of \<open>split_into_pages\<close>.  The source appends to \<open>pages\<close> the text
  of a page when it closes it; the model keeps the blocks of the page and renders them at
  the end (\<open>page_content\<close>), so that the blocks of a page can be named.
\<close>

record pack_state =
  pages :: "ContentBlock list list"
  current_page :: "ContentBlock list"
  current_chars :: int

definition pack_init :: pack_state where
  "pack_init = \<lparr>pages = [], current_page = [], current_chars = 0\<rparr>"

text \<open>The float \<open>TARGET_CHARS * 1.3\<close>.\<close>

definition overshoot :: real where
  "overshoot = fmul (of_int TARGET_CHARS) (fl (13 / 10))"

definition should_break :: "int \<Rightarrow> ContentBlock \<Rightarrow> bool" where
  "should_break cur block =
     (let potential_chars = cur + char_count block
      in if cur = 0 then False
         else if is_break_point block \<and> MIN_CHARS \<le> cur then True
         else if MAX_CHARS < potential_chars \<and> MIN_CHARS \<le> cur then True
         else if overshoot < of_int potential_chars then True
         else False)"

definition pack_step :: "pack_state \<Rightarrow> ContentBlock \<Rightarrow> pack_state" where
  "pack_step s block =
     (let s' = (if should_break (current_chars s) block \<and> current_page s \<noteq> []
                then \<lparr>pages = pages s @ [current_page s], current_page = [], current_chars = 0\<rparr>
                else s)
      in \<lparr>pages = pages s',
          current_page = current_page s' @ [block],
          current_chars = current_chars s' + char_count block\<rparr>)"

fun pack_loop :: "pack_state \<Rightarrow> ContentBlock list \<Rightarrow> pack_state" where
  "pack_loop s [] = s"
| "pack_loop s (block # blocks) = pack_loop (pack_step s block) blocks"

text \<open>The flush of the last page after the loop.\<close>

definition pack_finish :: "pack_state \<Rightarrow> ContentBlock list list" where
  "pack_finish s = (if current_page s \<noteq> [] then pages s @ [current_page s] else pages s)"

definition pack_blocks :: "ContentBlock list \<Rightarrow> ContentBlock list list" where
  "pack_blocks blocks = pack_finish (pack_loop pack_init blocks)"

definition page_content :: "ContentBlock list \<Rightarrow> string" where
  "page_content page = strip (join_nl (map content page))"

definition split_into_pages :: "ContentBlock list \<Rightarrow> string \<Rightarrow> string list" where
  "split_into_pages blocks source_file = map page_content (pack_blocks blocks)"

definition page_chars :: "ContentBlock list \<Rightarrow> int" where
  "page_chars page = sum_list (map char_count page)"

section \<open>The block segmenter: \<open>parse_content_blocks\<close>\<close>

text \<open>Every block is built as \<open>ContentBlock(content=c, block_type=t, char_count=len(c))\<close>.\<close>

definition mk_block :: "string \<Rightarrow> string \<Rightarrow> ContentBlock" where
  "mk_block block_content ty =
     \<lparr>content = block_content, block_type = ty, char_count = int (length block_content)\<rparr>"

record seg_state =
  blocks :: "ContentBlock list"
  current_block :: "string list"
  current_type :: string
  in_code_block :: bool
  in_table :: bool

definition seg_init :: seg_state where
  "seg_init =
     \<lparr>blocks = [], current_block = [], current_type = ''paragraph'',
      in_code_block = False, in_table = False\<rparr>"

text \<open>The tests the loop makes on a line.\<close>

definition is_fence :: "string \<Rightarrow> bool" where
  "is_fence line = startswith (strip line) ''```''"

definition is_table_line :: "string \<Rightarrow> bool" where
  "is_table_line line =
     (startswith (strip line) ''|'' \<or>
      (startswith (strip line) ''|-'' \<or> startswith (strip line) ''|:''))"

definition is_hr :: "string \<Rightarrow> bool" where
  "is_hr line = (strip line \<in> set [''---'', ''***'', ''___''])"

definition is_blank :: "string \<Rightarrow> bool" where
  "is_blank line = (strip line = [])"

text \<open>\<open>re.match(r'^[\s]*[-*+]\s', line)\<close>\<close>

definition match_bullet :: "string \<Rightarrow> bool" where
  "match_bullet line =
     (case dropWhile is_space line of
        c # d # _ \<Rightarrow> c \<in> set ''-*+'' \<and> is_space d
      | _ \<Rightarrow> False)"

text \<open>\<open>re.match(r'^[\s]*\d+\.\s', line)\<close>\<close>

definition match_numbered :: "string \<Rightarrow> bool" where
  "match_numbered line =
     (let r = dropWhile is_space line
      in takeWhile is_digit r \<noteq> [] \<and>
         (case dropWhile is_digit r of
            c # d # _ \<Rightarrow> c = CHR ''.'' \<and> is_space d
          | _ \<Rightarrow> False))"

definition is_list_item :: "string \<Rightarrow> bool" where
  "is_list_item line = (match_bullet line \<or> match_numbered line)"

text \<open>\<open>re.match(r'^#+\s*Step\s+\d+\.\d+', line)\<close>\<close>

definition match_step :: "string \<Rightarrow> bool" where
  "match_step line =
     (let r1 = dropWhile is_space (dropWhile (\<lambda>c. c = CHR ''#'') line);
          r2 = drop 4 r1;
          r3 = dropWhile is_space r2
      in takeWhile (\<lambda>c. c = CHR ''#'') line \<noteq> [] \<and>
         startswith r1 ''Step'' \<and>
         takeWhile is_space r2 \<noteq> [] \<and>
         takeWhile is_digit r3 \<noteq> [] \<and>
         (case dropWhile is_digit r3 of
            c # d # _ \<Rightarrow> c = CHR ''.'' \<and> is_digit d
          | _ \<Rightarrow> False))"

text \<open>The lines of the first paragraph that the heading branch keeps with the heading.\<close>

definition para_line :: "string \<Rightarrow> bool" where
  "para_line l =
     (strip l \<noteq> [] \<and> \<not> startswith l ''#'' \<and> \<not> startswith (strip l) ''```'' \<and>
      \<not> startswith (strip l) ''|'')"

text \<open>
  The inner loop of the list branch: \<open>collect_list ls list_block\<close> returns the list block
  and the lines left.  A blank line is taken only if the next non-blank line is a list item.
\<close>

fun collect_list :: "string list \<Rightarrow> string list \<Rightarrow> string list \<times> string list" where
  "collect_list [] list_block = (list_block, [])"
| "collect_list (next_line # ls) list_block =
     (if is_list_item next_line \<or> (startswith next_line ''  '' \<and> strip next_line \<noteq> []) \<or>
         strip next_line = []
      then
        (if strip next_line = [] then
           (case dropWhile is_blank ls of
              [] \<Rightarrow> (list_block, next_line # ls)
            | l # _ \<Rightarrow>
                if is_list_item l then collect_list ls (list_block @ [next_line])
                else (list_block, next_line # ls))
         else collect_list ls (list_block @ [next_line]))
      else (list_block, next_line # ls))"

text \<open>``Flush current block'', as the branches of the loop do it.\<close>

definition flush_current :: "seg_state \<Rightarrow> seg_state" where
  "flush_current s =
     (if current_block s \<noteq> []
      then s\<lparr>blocks := blocks s @ [mk_block (join_nl (current_block s)) (current_type s)],
             current_block := []\<rparr>
      else s)"

text \<open>
  One pass through the body of the \<open>while\<close> loop at the line \<open>line\<close>, \<open>rest\<close> being the
  lines after it: the result is the lines from the new index \<open>i\<close> on, and the new state.
\<close>

definition seg_step :: "string \<Rightarrow> string list \<Rightarrow> seg_state \<Rightarrow> string list \<times> seg_state" where
  "seg_step line rest s =
     (if is_fence line then
        (if in_code_block s then
           (rest, s\<lparr>blocks := blocks s @ [mk_block (join_nl (current_block s @ [line])) ''code''],
                    current_block := [], current_type := ''paragraph'', in_code_block := False\<rparr>)
         else
           (rest, (flush_current s)\<lparr>current_block := [line], current_type := ''code'',
                                    in_code_block := True\<rparr>))
      else if in_code_block s then
        (rest, s\<lparr>current_block := current_block s @ [line]\<rparr>)
      else if is_table_line line then
        (let s' = (if \<not> in_table s
                   then (flush_current s)\<lparr>in_table := True, current_type := ''table''\<rparr>
                   else s)
         in (rest, s'\<lparr>current_block := current_block s' @ [line]\<rparr>))
      else if in_table s then
        (line # rest,
         s\<lparr>blocks := blocks s @ [mk_block (join_nl (current_block s)) ''table''],
           current_block := [], in_table := False, current_type := ''paragraph''\<rparr>)
      else if is_hr line then
        (let s' = flush_current s
         in (rest, s'\<lparr>blocks := blocks s' @ [mk_block line ''hr''],
                      current_type := ''paragraph''\<rparr>))
      else if startswith line ''#'' then
        (let s' = flush_current s;
             heading_type = (if match_step line then ''step'' else ''heading'');
             r1 = dropWhile is_blank rest;
             heading_block = line # takeWhile is_blank rest @ takeWhile para_line r1
         in (dropWhile para_line r1,
             s'\<lparr>blocks := blocks s' @ [mk_block (join_nl heading_block) heading_type],
                current_type := ''paragraph''\<rparr>))
      else if is_list_item line then
        (let s' = flush_current s;
             lb = collect_list rest [line]
         in (snd lb,
             s'\<lparr>blocks := blocks s' @ [mk_block (join_nl (fst lb)) ''list''],
                current_type := ''paragraph''\<rparr>))
      else if strip line = [] then
        (rest, s\<lparr>current_block := current_block s @ [line]\<rparr>)
      else
        (rest, s\<lparr>current_block := current_block s @ [line]\<rparr>))"

text \<open>The flush after the loop: a buffer of white space only is not emitted.\<close>

definition seg_finish :: "seg_state \<Rightarrow> ContentBlock list" where
  "seg_finish s =
     (if current_block s \<noteq> [] \<and> strip (join_nl (current_block s)) \<noteq> []
      then blocks s @
           [mk_block (join_nl (current_block s))
              (if \<not> in_code_block s then current_type s else ''code'')]
      else blocks s)"

text \<open>
  The \<open>while\<close> loop.  The branch that ends a table does not advance \<open>i\<close>, so the
  recursion is not structural: each pass either shortens the lines left or leaves a table.
\<close>

lemma collect_list_length: "length (snd (collect_list ls acc)) \<le> length ls"
  by (induction ls acc rule: collect_list.induct) (auto split: list.splits intro: le_SucI)

lemma seg_step_measure:
  assumes st: "seg_step line rest s = (ls', s')"
  shows "2 * length ls' + (if in_table s' then 1 else 0) <
    2 * length (line # rest) + (if in_table s then (1::nat) else 0)"
proof -
  have d: "length (dropWhile para_line (dropWhile is_blank rest)) \<le> length rest"
    by (rule order_trans [OF length_dropWhile_le length_dropWhile_le])
  have c: "length (snd (collect_list rest [line])) \<le> length rest"
    by (rule collect_list_length)
  have "length ls' \<le> length rest \<or> (ls' = line # rest \<and> in_table s \<and> \<not> in_table s')"
    using st d c unfolding seg_step_def Let_def
    by (auto simp add: flush_current_def split: if_splits)
  then show ?thesis by auto
qed

function parse_loop :: "string list \<Rightarrow> seg_state \<Rightarrow> seg_state" where
  "parse_loop [] s = s"
| "parse_loop (line # rest) s =
     (case seg_step line rest s of (ls', s') \<Rightarrow> parse_loop ls' s')"
  by pat_completeness auto
termination
  apply (relation "measure (\<lambda>(ls, s). 2 * length ls + (if in_table s then 1 else 0))")
   apply simp
  apply (drule seg_step_measure [OF sym])
  apply simp
  done

declare parse_loop.simps [simp del]

definition parse_content_blocks :: "string \<Rightarrow> ContentBlock list" where
  "parse_content_blocks text = seg_finish (parse_loop (split_nl text) seg_init)"

text \<open>
  A line that opens or closes a fence right after a table row: the fence branch then leaves
  \<open>in_table\<close> set.  The statements below on whole texts are about texts without such a line.
\<close>

fun fence_after_table :: "string list \<Rightarrow> bool" where
  "fence_after_table (a # b # ls) =
     ((is_table_line a \<and> is_fence b) \<or> fence_after_table (b # ls))"
| "fence_after_table _ = False"

text \<open>The buffer that the flush after the loop does not emit.\<close>

definition dropped_tail :: "string \<Rightarrow> string list" where
  "dropped_tail text =
     (let s = parse_loop (split_nl text) seg_init
      in if current_block s \<noteq> [] \<and> strip (join_nl (current_block s)) = []
         then current_block s else [])"

text \<open>
  The table row as the specification words it: the line begins with the table delimiter
  and has at least one more delimiter after it.
\<close>

definition spec_table_row :: "string \<Rightarrow> bool" where
  "spec_table_row line = (startswith line ''|'' \<and> CHR ''|'' \<in> set (tl line))"

section \<open>The image fitter and the slice cropper\<close>

text \<open>
  The page of \<open>images-to-pdf.py\<close> and \<open>journal-to-pdf.py\<close>.  \<open>LETTER\<close> and \<open>inch\<close> come
  from reportlab: the page is 612 by 792 points and an inch is 72 points.
\<close>

definition PAGE_WIDTH :: real where
  "PAGE_WIDTH = 612"

definition PAGE_HEIGHT :: real where
  "PAGE_HEIGHT = 792"

definition inch :: real where
  "inch = 72"

definition MARGIN :: real where
  "MARGIN = fmul (fl (1 / 2)) inch"

definition USABLE_WIDTH :: real where
  "USABLE_WIDTH = fsub PAGE_WIDTH (fmul 2 MARGIN)"

definition USABLE_HEIGHT :: real where
  "USABLE_HEIGHT = fsub PAGE_HEIGHT (fmul 2 MARGIN)"

datatype py_error = ZeroDivisionError

definition calculate_scaled_dimensions ::
  "int \<Rightarrow> int \<Rightarrow> real \<Rightarrow> real option \<Rightarrow> py_error + real \<times> real" where
  "calculate_scaled_dimensions img_width img_height max_width max_height =
     (if float_of_int img_width = 0 then Inl ZeroDivisionError
      else
        let scale = fdiv max_width (float_of_int img_width);
            scaled_width = max_width;
            scaled_height = fmul (float_of_int img_height) scale
        in case max_height of
             None \<Rightarrow> Inr (scaled_width, scaled_height)
           | Some mh \<Rightarrow>
               if mh < scaled_height then
                 (if float_of_int img_height = 0 then Inl ZeroDivisionError
                  else Inr (fmul (float_of_int img_width)
                              (fdiv mh (float_of_int img_height)), mh))
               else Inr (scaled_width, scaled_height))"

definition can_fit_with_shrink :: "int \<Rightarrow> int \<Rightarrow> real \<Rightarrow> py_error + bool \<times> real \<times> real" where
  "can_fit_with_shrink img_width img_height shrink_factor =
     (case calculate_scaled_dimensions img_width img_height USABLE_WIDTH None of
        Inl e \<Rightarrow> Inl e
      | Inr (scaled_width, scaled_height) \<Rightarrow>
          if scaled_height \<le> USABLE_HEIGHT then Inr (True, scaled_width, scaled_height)
          else
            let min_scale = shrink_factor;
                required_scale = fdiv USABLE_HEIGHT scaled_height
            in if min_scale \<le> required_scale
               then Inr (True, fmul scaled_width required_scale, USABLE_HEIGHT)
               else Inr (False, scaled_width, scaled_height))"

text \<open>The default \<open>shrink_factor=0.8\<close>.\<close>

definition shrink_factor_default :: real where
  "shrink_factor_default = fl (4 / 5)"

text \<open>
  What is drawn for one slice of a split image: the rows cropped from the image, the size
  on the page, and the caption \<open>(i/N)\<close> if one is drawn.
\<close>

record slice =
  crop_start :: int
  crop_end :: int
  rendered_width :: real
  rendered_height :: real
  caption :: "(int \<times> int) option"

text \<open>
  The \<open>while remaining_height > 0\<close> loop of \<open>create_pdf\<close>.  Its exit depends on float
  subtraction, so the loop is a partial function: \<open>None\<close> is a loop that never ends.
\<close>

partial_function (option) slice_loop ::
  "int \<Rightarrow> real \<Rightarrow> real \<Rightarrow> int \<Rightarrow> real \<Rightarrow> real \<Rightarrow> int \<Rightarrow> slice list \<Rightarrow> slice list option" where
  "slice_loop img_height scaled_width scale_factor total_pages
     remaining_height crop_y_start page_num acc =
     (if 0 < remaining_height then
        (let page_num' = page_num + 1;
             this_page_height = min remaining_height USABLE_HEIGHT;
             crop_height_original = fdiv this_page_height scale_factor;
             crop_y_end = min (fadd crop_y_start crop_height_original) (of_int img_height);
             actual_height = fmul (fsub crop_y_end crop_y_start) scale_factor
         in slice_loop img_height scaled_width scale_factor total_pages
              (fsub remaining_height this_page_height) crop_y_end page_num'
              (acc @
               [\<lparr>crop_start = trunc crop_y_start, crop_end = trunc crop_y_end,
                  rendered_width = scaled_width, rendered_height = actual_height,
                  caption = (if 1 < total_pages then Some (page_num', total_pages)
                             else None)\<rparr>]))
      else Some acc)"

text \<open>\<open>int((scaled_height + usable_height - 1) // usable_height)\<close>, in both scripts.\<close>

definition pages_needed :: "real \<Rightarrow> real \<Rightarrow> int" where
  "pages_needed scaled_height usable_height =
     trunc (ffloordiv (fsub (fadd scaled_height usable_height) 1) usable_height)"

text \<open>
  The branch of \<open>create_pdf\<close> for an image that \<open>can_fit_with_shrink\<close> rejects.  The image
  width is then not 0, and \<open>scale_factor\<close>, the rounding of a non-zero quotient, is not 0.
\<close>

definition split_image :: "int \<Rightarrow> int \<Rightarrow> py_error + slice list option" where
  "split_image img_width img_height =
     (case calculate_scaled_dimensions img_width img_height USABLE_WIDTH None of
        Inl e \<Rightarrow> Inl e
      | Inr (scaled_width, scaled_height) \<Rightarrow>
          let total_pages = pages_needed scaled_height USABLE_HEIGHT;
              scale_factor = fdiv scaled_width (float_of_int img_width)
          in Inr (slice_loop img_height scaled_width scale_factor total_pages
                    scaled_height 0 0 []))"

text \<open>
  \<open>add_split_image\<close> of \<open>journal-to-pdf.py\<close>, on the size of the opened image;
  \<open>range(num_pages)\<close> is the list of the ints from 0 below \<open>num_pages\<close>.
\<close>

definition add_split_image :: "int \<Rightarrow> int \<Rightarrow> real \<Rightarrow> real \<Rightarrow> py_error + slice list" where
  "add_split_image img_width img_height usable_width usable_height =
     (if float_of_int img_width = 0 then Inl ZeroDivisionError
      else
        let scale = fdiv usable_width (float_of_int img_width);
            scaled_height = fmul (float_of_int img_height) scale
        in if usable_height = 0 \<or> scale = 0 then Inl ZeroDivisionError
           else
             let num_pages = pages_needed scaled_height usable_height;
                 crop_height_per_page = fdiv usable_height scale
             in Inr (map
                  (\<lambda>page_num.
                     let crop_y_start =
                           trunc (fmul (float_of_int page_num) crop_height_per_page);
                         crop_y_end =
                           min (trunc (fmul (float_of_int (page_num + 1)) crop_height_per_page))
                             img_height;
                         slice_height = fmul (float_of_int (crop_y_end - crop_y_start)) scale
                     in \<lparr>crop_start = crop_y_start, crop_end = crop_y_end,
                         rendered_width = usable_width, rendered_height = slice_height,
                         caption = Some (page_num + 1, num_pages)\<rparr>)
                  (map int [0..<nat num_pages])))"

section \<open>Invariants\<close>

text \<open>What holds of a page of the packer, and of the state of its loop.\<close>

definition page_ok :: "ContentBlock list \<Rightarrow> bool" where
  "page_ok p =
     ((page_chars (butlast p) = 0 \<or> page_chars p \<le> 3575) \<and>
      (MIN_CHARS \<le> page_chars (butlast p) \<longrightarrow> page_chars p \<le> MAX_CHARS))"

definition pack_inv :: "pack_state \<Rightarrow> bool" where
  "pack_inv s =
     ((\<forall>p \<in> set (pages s). page_ok p) \<and>
      (current_page s \<noteq> [] \<longrightarrow> page_ok (current_page s)) \<and>
      current_chars s = page_chars (current_page s))"

text \<open>The character counts of the blocks are the lengths of their contents.\<close>

definition counts_ok :: "ContentBlock list \<Rightarrow> bool" where
  "counts_ok bs = (\<forall>b \<in> set bs. char_count b = int (length (content b)))"

text \<open>
  The text still to be accounted for: the blocks emitted, the buffer and the lines left,
  joined by newlines.
\<close>

definition pending :: "seg_state \<Rightarrow> string list \<Rightarrow> string" where
  "pending s ls = join_nl (map content (blocks s) @ current_block s @ ls)"

text \<open>The test of the inner loop of the list branch for taking the next line.\<close>

definition take_next :: "string \<Rightarrow> string list \<Rightarrow> bool" where
  "take_next next_line ls =
     ((is_list_item next_line \<or> (startswith next_line ''  '' \<and> strip next_line \<noteq> []) \<or>
       strip next_line = []) \<and>
      (strip next_line = [] \<longrightarrow>
         (case dropWhile is_blank ls of [] \<Rightarrow> False | l # _ \<Rightarrow> is_list_item l)))"

text \<open>
  The table flag is set only with a non-empty buffer, outside a fence and before a line
  that is no fence.
\<close>

definition seg_ok :: "string list \<Rightarrow> seg_state \<Rightarrow> bool" where
  "seg_ok ls s =
     ((in_table s \<longrightarrow>
         current_block s \<noteq> [] \<and> \<not> in_code_block s \<and>
         (case ls of [] \<Rightarrow> True | l # _ \<Rightarrow> \<not> is_fence l)) \<and>
      \<not> fence_after_table ls)"

section \<open>Properties of float rounding\<close>

text \<open>The equations that evaluate float operations on given numbers.\<close>

lemmas fl_eval = fl_def ilog2_def compute_floorlog pow2_def round_half_even_def Let_def
  fadd_def fsub_def fmul_def fdiv_def float_of_int_def
















section \<open>Properties of the image fitter\<close>

lemma MARGIN_eq: "MARGIN = 36"
  by (simp add: MARGIN_def inch_def fl_eval)

lemma USABLE_WIDTH_eq: "USABLE_WIDTH = 540"
  by (simp add: USABLE_WIDTH_def PAGE_WIDTH_def MARGIN_eq fl_eval)

lemma USABLE_HEIGHT_eq: "USABLE_HEIGHT = 720"
  by (simp add: USABLE_HEIGHT_def PAGE_HEIGHT_def MARGIN_eq fl_eval)

lemmas img_eval = calculate_scaled_dimensions_def can_fit_with_shrink_def split_image_def
  add_split_image_def pages_needed_def trunc_def ffloordiv_def USABLE_WIDTH_eq USABLE_HEIGHT_eq
  shrink_factor_default_def fl_eval










text \<open>
  The width-fit height is the float that the script computes.  For an image of 105 by 175
  pixels the exact quotient is 900, the float is the next one above it, and the image is
  split.
\<close>

lemma scaled_height_rounded:
  "can_fit_with_shrink 105 175 shrink_factor_default = Inr (False, 540, 900 + 1 / 2 ^ 43)"
  by (simp add: img_eval)

section \<open>The slice cropper on an image of 1080 by 2881 pixels\<close>

text \<open>
  The width-fit height of the image is 1440.5 points, two usable heights and half a point.
\<close>

lemma float_1080: "float_of_int 1080 = 1080"
  by (simp add: fl_eval)

lemma scale_1080: "fdiv 540 1080 = 1 / 2"
  by (simp add: fl_eval)

lemma height_2881: "fmul (float_of_int 2881) (1 / 2) = 2881 / 2"
  by (simp add: fl_eval)

lemma pages_2881: "pages_needed (2881 / 2) 720 = 2"
  by (simp add: img_eval)

lemma crop_per_page: "fdiv 720 (1 / 2) = 1440"
  by (simp add: fl_eval)

lemma range_2: "[0..<2] = [0, 1]"
  by (simp add: upt_rec)

lemma slice_loop_step:
  "0 < remaining_height \<Longrightarrow>
   slice_loop img_height scaled_width scale_factor total_pages remaining_height crop_y_start
     page_num acc =
   slice_loop img_height scaled_width scale_factor total_pages
     (fsub remaining_height (min remaining_height USABLE_HEIGHT))
     (min (fadd crop_y_start (fdiv (min remaining_height USABLE_HEIGHT) scale_factor))
        (of_int img_height))
     (page_num + 1)
     (acc @ [\<lparr>crop_start = trunc crop_y_start,
        crop_end = trunc (min (fadd crop_y_start
          (fdiv (min remaining_height USABLE_HEIGHT) scale_factor)) (of_int img_height)),
        rendered_width = scaled_width,
        rendered_height = fmul (fsub (min (fadd crop_y_start
          (fdiv (min remaining_height USABLE_HEIGHT) scale_factor)) (of_int img_height))
          crop_y_start) scale_factor,
        caption = (if 1 < total_pages then Some (page_num + 1, total_pages) else None)\<rparr>])"
  by (subst slice_loop.simps) (simp add: Let_def)

lemma slice_loop_done:
  "\<not> 0 < remaining_height \<Longrightarrow>
   slice_loop img_height scaled_width scale_factor total_pages remaining_height crop_y_start
     page_num acc = Some acc"
  by (subst slice_loop.simps) simp


text \<open>
  C5 fails in \<open>add_split_image\<close>: two slices are made, of the rows 0 to 1440 and 1440 to
  2880, and the last row of the 2881 is in no slice.
\<close>

theorem add_split_image_drops_row:
  "add_split_image 1080 2881 USABLE_WIDTH USABLE_HEIGHT =
     Inr [\<lparr>crop_start = 0, crop_end = 1440, rendered_width = 540, rendered_height = 720,
             caption = Some (1, 2)\<rparr>,
          \<lparr>crop_start = 1440, crop_end = 2880, rendered_width = 540, rendered_height = 720,
             caption = Some (2, 2)\<rparr>]"
  apply (simp add: add_split_image_def USABLE_WIDTH_eq USABLE_HEIGHT_eq float_1080 scale_1080
      height_2881 pages_2881 crop_per_page range_2 Let_def)
  apply (simp add: fl_eval trunc_def)
  done

text \<open>
  C7 fails in \<open>create_pdf\<close>: the page count is 2 where the ceiling of 1440.5 / 720 is 3; the
  loop makes three slices and captions them 1/2, 2/2 and 3/2.
\<close>

theorem split_image_page_count:
  "pages_needed (2881 / 2) USABLE_HEIGHT = 2 \<and> \<lceil>(2881 / 2) / USABLE_HEIGHT\<rceil> = 3 \<and>
   split_image 1080 2881 =
     Inr (Some
       [\<lparr>crop_start = 0, crop_end = 1440, rendered_width = 540, rendered_height = 720,
           caption = Some (1, 2)\<rparr>,
        \<lparr>crop_start = 1440, crop_end = 2880, rendered_width = 540, rendered_height = 720,
           caption = Some (2, 2)\<rparr>,
        \<lparr>crop_start = 2880, crop_end = 2881, rendered_width = 540, rendered_height = 1 / 2,
           caption = Some (3, 2)\<rparr>])"
  apply (simp add: split_image_def calculate_scaled_dimensions_def USABLE_WIDTH_eq
      USABLE_HEIGHT_eq float_1080 scale_1080 height_2881 pages_2881 Let_def)
  apply (simp add: slice_loop_step slice_loop_done USABLE_HEIGHT_eq fl_eval trunc_def)
  done

section \<open>Properties of the page packer\<close>

lemma overshoot_eq: "overshoot = 3575"
  by (simp add: overshoot_def fmul_def TARGET_CHARS_def fl_def ilog2_def compute_floorlog
      pow2_def round_half_even_def Let_def)

lemma pack_loop_append: "pack_loop s (xs @ ys) = pack_loop (pack_loop s xs) ys"
  by (induction xs arbitrary: s) simp_all

lemma pack_step_chars:
  "current_chars s = page_chars (current_page s) \<Longrightarrow>
   current_chars (pack_step s b) = page_chars (current_page (pack_step s b))"
  by (simp add: pack_step_def page_chars_def Let_def)

lemma pack_loop_chars:
  "current_chars s = page_chars (current_page s) \<Longrightarrow>
   current_chars (pack_loop s bs) = page_chars (current_page (pack_loop s bs))"
  by (induction bs arbitrary: s) (simp_all add: pack_step_chars)

lemma pack_init_chars: "current_chars pack_init = page_chars (current_page pack_init)"
  by (simp add: pack_init_def page_chars_def)

lemma pack_step_concat:
  "concat (pages (pack_step s b)) @ current_page (pack_step s b) =
   concat (pages s) @ current_page s @ [b]"
  by (simp add: pack_step_def Let_def)

lemma pack_loop_concat:
  "concat (pages (pack_loop s bs)) @ current_page (pack_loop s bs) =
   concat (pages s) @ current_page s @ bs"
  by (induction bs arbitrary: s) (simp_all add: pack_step_concat)

lemma pack_finish_concat: "concat (pack_finish s) = concat (pages s) @ current_page s"
  by (simp add: pack_finish_def)

text \<open>
  C9: given the empty block list, \<open>split_into_pages\<close> returns the empty list of pages.
\<close>

theorem split_into_pages_empty: "split_into_pages [] source_file = []"
  by (simp add: split_into_pages_def pack_blocks_def pack_finish_def pack_init_def)

text \<open>
  C3: the block sequences of the pages, concatenated in page order, are the input block
  list: no block is dropped, duplicated or moved.
\<close>

theorem pack_blocks_concat: "concat (pack_blocks bs) = bs"
  by (simp add: pack_blocks_def pack_finish_concat pack_loop_concat pack_init_def)

lemma page_chars_snoc: "page_chars (p @ [b]) = page_chars p + char_count b"
  by (simp add: page_chars_def)

lemma page_chars_Nil: "page_chars [] = 0"
  by (simp add: page_chars_def)

lemma pack_step_inv: "pack_inv s \<Longrightarrow> pack_inv (pack_step s b)"
  unfolding pack_inv_def pack_step_def page_ok_def should_break_def Let_def
  by (auto simp add: page_chars_snoc page_chars_Nil overshoot_eq MIN_CHARS_def MAX_CHARS_def)

lemma pack_loop_inv: "pack_inv s \<Longrightarrow> pack_inv (pack_loop s bs)"
  by (induction bs arbitrary: s) (simp_all add: pack_step_inv)

lemma pack_init_inv: "pack_inv pack_init"
  by (simp add: pack_inv_def pack_init_def page_chars_def)

lemma pack_finish_inv: "pack_inv s \<Longrightarrow> p \<in> set (pack_finish s) \<Longrightarrow> page_ok p"
  by (auto simp add: pack_inv_def pack_finish_def split: if_splits)

text \<open>
  C1, as amended: a page holds at most \<open>MAX_CHARS\<close> characters whenever the blocks before
  its last block already hold at least \<open>MIN_CHARS\<close>; and a page holds at most 3575
  characters (the float \<open>TARGET_CHARS * 1.3\<close>) unless the blocks before its last block hold
  no character at all, as on a page of a single block.
\<close>

theorem pack_blocks_bound:
  "\<forall>p \<in> set (pack_blocks bs).
     (page_chars (butlast p) = 0 \<or> page_chars p \<le> 3575) \<and>
     (MIN_CHARS \<le> page_chars (butlast p) \<longrightarrow> page_chars p \<le> MAX_CHARS)"
  using pack_finish_inv [OF pack_loop_inv [OF pack_init_inv], of _ bs]
  by (simp add: pack_blocks_def page_ok_def)

text \<open>The bound at a page of two paragraphs of 2000 and 1000 characters.\<close>

theorem pack_blocks_bound_witness:
  "[\<lparr>content = replicate 2000 (CHR ''a''), block_type = ''paragraph'', char_count = 2000\<rparr>,
    \<lparr>content = replicate 1000 (CHR ''b''), block_type = ''paragraph'', char_count = 1000\<rparr>]
   \<in> set (pack_blocks
     [\<lparr>content = replicate 2000 (CHR ''a''), block_type = ''paragraph'', char_count = 2000\<rparr>,
      \<lparr>content = replicate 1000 (CHR ''b''), block_type = ''paragraph'', char_count = 1000\<rparr>]) \<and>
   MIN_CHARS \<le> page_chars (butlast
     [\<lparr>content = replicate 2000 (CHR ''a''), block_type = ''paragraph'', char_count = 2000\<rparr>,
      \<lparr>content = replicate 1000 (CHR ''b''), block_type = ''paragraph'', char_count = 1000\<rparr>]) \<and>
   page_chars
     [\<lparr>content = replicate 2000 (CHR ''a''), block_type = ''paragraph'', char_count = 2000\<rparr>,
      \<lparr>content = replicate 1000 (CHR ''b''), block_type = ''paragraph'', char_count = 1000\<rparr>]
   \<le> MAX_CHARS"
proof -
  let ?b1 = "\<lparr>content = replicate 2000 (CHR ''a''), block_type = ''paragraph'', char_count = 2000\<rparr>"
  let ?b2 = "\<lparr>content = replicate 1000 (CHR ''b''), block_type = ''paragraph'', char_count = 1000\<rparr>"
  have m: "[?b1, ?b2] \<in> set (pack_blocks [?b1, ?b2])"
    by (simp add: pack_blocks_def pack_finish_def pack_init_def pack_step_def should_break_def
        is_break_point_def overshoot_eq MIN_CHARS_def MAX_CHARS_def Let_def)
  have h: "MIN_CHARS \<le> page_chars (butlast [?b1, ?b2])"
    by (simp add: MIN_CHARS_def page_chars_def)
  from pack_blocks_bound [of "[?b1, ?b2]"] m h show ?thesis
    by blast
qed

text \<open>
  C1 as stated fails: two paragraphs of 1999 and 1576 characters make one page of two
  blocks and 3575 characters, more than \<open>MAX_CHARS\<close>.
\<close>

theorem pack_blocks_ceiling_counterexample:
  "pack_blocks
     [\<lparr>content = replicate 1999 (CHR ''a''), block_type = ''paragraph'', char_count = 1999\<rparr>,
      \<lparr>content = replicate 1576 (CHR ''b''), block_type = ''paragraph'', char_count = 1576\<rparr>] =
     [[\<lparr>content = replicate 1999 (CHR ''a''), block_type = ''paragraph'', char_count = 1999\<rparr>,
       \<lparr>content = replicate 1576 (CHR ''b''), block_type = ''paragraph'', char_count = 1576\<rparr>]] \<and>
   MAX_CHARS <
     page_chars
       [\<lparr>content = replicate 1999 (CHR ''a''), block_type = ''paragraph'', char_count = 1999\<rparr>,
        \<lparr>content = replicate 1576 (CHR ''b''), block_type = ''paragraph'', char_count = 1576\<rparr>]"
  by (simp add: pack_blocks_def pack_finish_def pack_init_def pack_step_def should_break_def
      is_break_point_def overshoot_eq MIN_CHARS_def MAX_CHARS_def page_chars_def Let_def)

lemma pack_loop_extends:
  "current_page s \<noteq> [] \<Longrightarrow>
   \<exists>p ps. pack_finish (pack_loop s bs) = pages s @ (current_page s @ p) # ps"
proof (induction bs arbitrary: s)
  case Nil
  then show ?case by (simp add: pack_finish_def)
next
  case (Cons b bs)
  let ?t = "pack_step s b"
  have ne: "current_page ?t \<noteq> []"
    by (simp add: pack_step_def Let_def)
  from Cons.IH [OF ne] obtain p ps
    where fin: "pack_finish (pack_loop ?t bs) = pages ?t @ (current_page ?t @ p) # ps"
    by blast
  show ?case
  proof (cases "should_break (current_chars s) b \<and> current_page s \<noteq> []")
    case True
    then have "pages ?t = pages s @ [current_page s]" "current_page ?t = [b]"
      by (simp_all add: pack_step_def Let_def)
    with fin have "pack_finish (pack_loop s (b # bs)) = pages s @ (current_page s @ []) # (b # p) # ps"
      by simp
    then show ?thesis by blast
  next
    case False
    then have "pages ?t = pages s" "current_page ?t = current_page s @ [b]"
      by (auto simp add: pack_step_def Let_def)
    with fin have "pack_finish (pack_loop s (b # bs)) = pages s @ (current_page s @ (b # p)) # ps"
      by simp
    then show ?thesis by blast
  qed
qed

text \<open>
  C4: when a heading, rule or step block \<open>b\<close> comes after the blocks \<open>pre\<close> and the page
  under construction then holds at least \<open>MIN_CHARS\<close> characters, \<open>b\<close> is not the first
  block, the pages of \<open>pre\<close> are closed as they are, and the next page begins with \<open>b\<close>.
\<close>

theorem break_point_starts_page:
  assumes bp: "is_break_point b"
    and full: "MIN_CHARS \<le> current_chars (pack_loop pack_init pre)"
  shows "pre \<noteq> [] \<and> (\<exists>p ps. pack_blocks (pre @ b # post) = pack_blocks pre @ (b # p) # ps)"
proof -
  let ?s = "pack_loop pack_init pre"
  have chars: "current_chars ?s = page_chars (current_page ?s)"
    by (rule pack_loop_chars [OF pack_init_chars])
  from full have pos: "current_chars ?s \<noteq> 0"
    by (simp add: MIN_CHARS_def)
  with chars have ne: "current_page ?s \<noteq> []"
    by (auto simp add: page_chars_def)
  have pre: "pre \<noteq> []"
    using pos by (auto simp add: pack_init_def)
  from bp full pos have brk: "should_break (current_chars ?s) b"
    by (simp add: should_break_def Let_def)
  let ?t = "pack_step ?s b"
  from brk ne have t: "pages ?t = pages ?s @ [current_page ?s]" "current_page ?t = [b]"
    by (simp_all add: pack_step_def Let_def)
  then have "current_page ?t \<noteq> []" by simp
  from pack_loop_extends [OF this, of post] obtain p ps
    where "pack_finish (pack_loop ?t post) = pages ?t @ (current_page ?t @ p) # ps"
    by blast
  with t have "pack_finish (pack_loop ?t post) = (pages ?s @ [current_page ?s]) @ (b # p) # ps"
    by simp
  moreover have "pack_blocks pre = pages ?s @ [current_page ?s]"
    using ne by (simp add: pack_blocks_def pack_finish_def)
  moreover have "pack_blocks (pre @ b # post) = pack_finish (pack_loop ?t post)"
    by (simp add: pack_blocks_def pack_loop_append)
  ultimately have "pack_blocks (pre @ b # post) = pack_blocks pre @ (b # p) # ps"
    by simp
  with pre show ?thesis by blast
qed

text \<open>The same at a paragraph of 2000 characters followed by a heading.\<close>

theorem break_point_starts_page_witness:
  "is_break_point \<lparr>content = ''# Next'', block_type = ''heading'', char_count = 6\<rparr> \<and>
   MIN_CHARS \<le> current_chars (pack_loop pack_init
     [\<lparr>content = replicate 2000 (CHR ''a''), block_type = ''paragraph'', char_count = 2000\<rparr>]) \<and>
   (\<exists>p ps. pack_blocks
      ([\<lparr>content = replicate 2000 (CHR ''a''), block_type = ''paragraph'', char_count = 2000\<rparr>] @
       \<lparr>content = ''# Next'', block_type = ''heading'', char_count = 6\<rparr> # []) =
      pack_blocks
        [\<lparr>content = replicate 2000 (CHR ''a''), block_type = ''paragraph'', char_count = 2000\<rparr>] @
      (\<lparr>content = ''# Next'', block_type = ''heading'', char_count = 6\<rparr> # p) # ps)"
proof -
  let ?h = "\<lparr>content = ''# Next'', block_type = ''heading'', char_count = 6\<rparr>"
  let ?p = "\<lparr>content = replicate 2000 (CHR ''a''), block_type = ''paragraph'', char_count = 2000\<rparr>"
  have bp: "is_break_point ?h"
    by (simp add: is_break_point_def)
  have full: "MIN_CHARS \<le> current_chars (pack_loop pack_init [?p])"
    by (simp add: pack_init_def pack_step_def should_break_def MIN_CHARS_def Let_def)
  from break_point_starts_page [OF bp full, of "[]"] bp full show ?thesis
    by blast
qed


section \<open>Properties of the block segmenter\<close>

text \<open>The equations that evaluate the segmenter on a given text.\<close>

lemmas seg_eval = parse_content_blocks_def seg_finish_def seg_init_def seg_step_def
  flush_current_def mk_block_def is_fence_def is_table_line_def is_hr_def is_blank_def
  match_bullet_def match_numbered_def is_list_item_def match_step_def para_line_def strip_def
  is_space_def is_digit_def nl_def Let_def parse_loop.simps

lemma counts_ok_snoc: "counts_ok bs \<Longrightarrow> counts_ok (bs @ [mk_block c t])"
  by (simp add: counts_ok_def mk_block_def)

lemma counts_ok_flush: "counts_ok (blocks s) \<Longrightarrow> counts_ok (blocks (flush_current s))"
  by (simp add: flush_current_def counts_ok_snoc)

lemma seg_step_counts:
  "counts_ok (blocks s) \<Longrightarrow> counts_ok (blocks (snd (seg_step line rest s)))"
  by (simp add: seg_step_def Let_def counts_ok_snoc counts_ok_flush)

lemma parse_loop_counts: "counts_ok (blocks s) \<Longrightarrow> counts_ok (blocks (parse_loop ls s))"
proof (induction ls s rule: parse_loop.induct)
  case (1 s)
  then show ?case by (simp add: parse_loop.simps)
next
  case (2 line rest s)
  obtain ls' s' where st: "seg_step line rest s = (ls', s')"
    by (cases "seg_step line rest s")
  from seg_step_counts [OF "2.prems", of line rest] st have "counts_ok (blocks s')"
    by simp
  from "2.IH" [OF st [symmetric] this] st show ?case
    by (simp add: parse_loop.simps)
qed

text \<open>
  C10: the \<open>char_count\<close> of every block that \<open>parse_content_blocks\<close> emits is the length
  of its \<open>content\<close>.
\<close>

theorem char_count_exact:
  "\<forall>b \<in> set (parse_content_blocks text). char_count b = int (length (content b))"
proof -
  have "counts_ok (blocks (parse_loop (split_nl text) seg_init))"
    by (rule parse_loop_counts) (simp add: counts_ok_def seg_init_def)
  then have "counts_ok (parse_content_blocks text)"
    by (simp add: parse_content_blocks_def seg_finish_def counts_ok_snoc)
  then show ?thesis by (simp add: counts_ok_def)
qed

text \<open>The same at the one-line text \<open>| x\<close>, whose only block has three characters.\<close>

theorem char_count_exact_witness:
  "\<lparr>content = ''| x'', block_type = ''table'', char_count = 3\<rparr>
     \<in> set (parse_content_blocks ''| x'') \<and>
   char_count \<lparr>content = ''| x'', block_type = ''table'', char_count = 3\<rparr> =
     int (length (content \<lparr>content = ''| x'', block_type = ''table'', char_count = 3\<rparr>))"
proof -
  have m: "\<lparr>content = ''| x'', block_type = ''table'', char_count = 3\<rparr>
      \<in> set (parse_content_blocks ''| x'')"
    by (simp add: seg_eval)
  from char_count_exact [of "''| x''"] m show ?thesis
    by blast
qed


lemma split_nl_not_Nil: "split_nl s \<noteq> []"
  by (induction s) simp_all

lemma join_split_nl: "join_nl (split_nl s) = s"
proof (induction s)
  case Nil
  then show ?case by simp
next
  case (Cons c cs)
  obtain l ls where sp: "split_nl cs = l # ls"
    using split_nl_not_Nil [of cs] by (cases "split_nl cs") auto
  with Cons show ?case
    by (cases ls) auto
qed

lemma join_nl_append:
  "xs \<noteq> [] \<Longrightarrow> ys \<noteq> [] \<Longrightarrow> join_nl (xs @ ys) = join_nl xs @ nl # join_nl ys"
proof (induction xs rule: join_nl.induct)
  case 1
  then show ?case by simp
next
  case (2 l)
  then show ?case by (cases ys) simp_all
next
  case (3 l m ls)
  then show ?case by simp
qed

lemma join_nl_flat:
  assumes "ys \<noteq> []"
  shows "join_nl (xs @ join_nl ys # zs) = join_nl (xs @ ys @ zs)"
proof -
  have mid: "join_nl (join_nl ys # zs) = join_nl (ys @ zs)"
  proof (cases zs)
    case Nil
    then show ?thesis by simp
  next
    case (Cons z zs')
    with assms show ?thesis by (simp add: join_nl_append)
  qed
  show ?thesis
  proof (cases xs)
    case Nil
    with mid show ?thesis by simp
  next
    case (Cons x xs')
    then have "xs \<noteq> []" by simp
    with assms mid show ?thesis by (simp add: join_nl_append)
  qed
qed

lemma pending_flush: "pending (flush_current s) ls = pending s ls"
  by (simp add: pending_def flush_current_def mk_block_def join_nl_flat)

lemma flush_current_fields:
  "current_block (flush_current s) = []"
  "in_table (flush_current s) = in_table s"
  "in_code_block (flush_current s) = in_code_block s"
  by (simp_all add: flush_current_def)

lemma pending_emit:
  assumes "current_block s = []" "ys \<noteq> []"
  shows "pending (s\<lparr>blocks := blocks s @ [mk_block (join_nl ys) t], current_type := ty\<rparr>) zs =
    pending s (ys @ zs)"
  using assms by (simp add: pending_def mk_block_def join_nl_flat)

lemma collect_list_Cons:
  "collect_list (next_line # ls) acc =
     (if take_next next_line ls then collect_list ls (acc @ [next_line])
      else (acc, next_line # ls))"
  by (cases "dropWhile is_blank ls") (simp_all add: take_next_def del: dropWhile_eq_Nil_conv)

declare collect_list.simps(2) [simp del]

lemma collect_list_split:
  "\<exists>pre. fst (collect_list ls acc) = acc @ pre \<and> ls = pre @ snd (collect_list ls acc)"
proof (induction ls arbitrary: acc)
  case Nil
  then show ?case by simp
next
  case (Cons next_line ls)
  show ?case
  proof (cases "take_next next_line ls")
    case True
    from Cons [of "acc @ [next_line]"] obtain pre
      where "fst (collect_list ls (acc @ [next_line])) = (acc @ [next_line]) @ pre"
        and "ls = pre @ snd (collect_list ls (acc @ [next_line]))"
      by blast
    with True have "fst (collect_list (next_line # ls) acc) = acc @ (next_line # pre) \<and>
       next_line # ls = (next_line # pre) @ snd (collect_list (next_line # ls) acc)"
      by (simp add: collect_list_Cons)
    then show ?thesis by blast
  next
    case False
    then show ?thesis by (simp add: collect_list_Cons)
  qed
qed

lemma fence_after_table_suffix: "\<not> fence_after_table (xs @ ys) \<Longrightarrow> \<not> fence_after_table ys"
proof (induction xs)
  case Nil
  then show ?case by simp
next
  case (Cons x xs)
  then show ?case by (cases "xs @ ys") auto
qed

lemma seg_ok_tail:
  assumes "seg_ok (line # rest) s"
  shows "\<not> fence_after_table rest"
    and "is_table_line line \<Longrightarrow> (case rest of [] \<Rightarrow> True | l # _ \<Rightarrow> \<not> is_fence l)"
proof -
  from assms have nf: "\<not> fence_after_table (line # rest)"
    by (simp add: seg_ok_def)
  then show "\<not> fence_after_table rest"
    using fence_after_table_suffix [of "[line]" rest] by simp
  from nf show "is_table_line line \<Longrightarrow> (case rest of [] \<Rightarrow> True | l # _ \<Rightarrow> \<not> is_fence l)"
    by (cases rest) auto
qed

lemma seg_step_lossless:
  assumes ok: "seg_ok (line # rest) s" and st: "seg_step line rest s = (ls', s')"
  shows "seg_ok ls' s' \<and> pending s' ls' = pending s (line # rest)"
proof -
  note tl = seg_ok_tail [OF ok]
  from ok have tab: "in_table s \<Longrightarrow> current_block s \<noteq> [] \<and> \<not> in_code_block s \<and> \<not> is_fence line"
    by (simp add: seg_ok_def)
  let ?f = "flush_current s"
  have pf: "\<And>zs. pending ?f zs = pending s zs"
    by (rule pending_flush)
  have pf': "\<And>zs. join_nl (map content (blocks ?f) @ zs) = pending s zs"
    using pf by (simp add: pending_def flush_current_fields)
  consider (fence_close) "is_fence line" "in_code_block s"
    | (fence_open) "is_fence line" "\<not> in_code_block s"
    | (code) "\<not> is_fence line" "in_code_block s"
    | (table) "\<not> is_fence line" "\<not> in_code_block s" "is_table_line line"
    | (table_end) "\<not> is_fence line" "\<not> in_code_block s" "\<not> is_table_line line" "in_table s"
    | (hr) "\<not> is_fence line" "\<not> in_code_block s" "\<not> is_table_line line" "\<not> in_table s"
        "is_hr line"
    | (heading) "\<not> is_fence line" "\<not> in_code_block s" "\<not> is_table_line line" "\<not> in_table s"
        "\<not> is_hr line" "startswith line ''#''"
    | (list) "\<not> is_fence line" "\<not> in_code_block s" "\<not> is_table_line line" "\<not> in_table s"
        "\<not> is_hr line" "\<not> startswith line ''#''" "is_list_item line"
    | (other) "\<not> is_fence line" "\<not> in_code_block s" "\<not> is_table_line line" "\<not> in_table s"
        "\<not> is_hr line" "\<not> startswith line ''#''" "\<not> is_list_item line"
    by blast
  then show ?thesis
  proof cases
    case fence_close
    with tab have nt: "\<not> in_table s" by blast
    from fence_close st have "ls' = rest"
      and "s' = s\<lparr>blocks := blocks s @ [mk_block (join_nl (current_block s @ [line])) ''code''],
                    current_block := [], current_type := ''paragraph'', in_code_block := False\<rparr>"
      by (auto simp add: seg_step_def)
    with nt tl(1) show ?thesis
      using join_nl_flat [of "current_block s @ [line]" "map content (blocks s)" rest]
      by (simp add: seg_ok_def pending_def mk_block_def)
  next
    case fence_open
    with tab have nt: "\<not> in_table s" by blast
    from fence_open st have "ls' = rest"
      and "s' = ?f\<lparr>current_block := [line], current_type := ''code'', in_code_block := True\<rparr>"
      by (auto simp add: seg_step_def)
    with nt tl(1) show ?thesis
      using pf' [of "line # rest"]
      by (simp add: seg_ok_def pending_def flush_current_fields)
  next
    case code
    with tab have nt: "\<not> in_table s" by blast
    from code st have "ls' = rest" and "s' = s\<lparr>current_block := current_block s @ [line]\<rparr>"
      by (auto simp add: seg_step_def)
    with nt tl(1) show ?thesis
      by (simp add: seg_ok_def pending_def)
  next
    case table
    show ?thesis
    proof (cases "in_table s")
      case True
      with table st have "ls' = rest" and "s' = s\<lparr>current_block := current_block s @ [line]\<rparr>"
        by (auto simp add: seg_step_def)
      with True table tl tab show ?thesis
        by (simp add: seg_ok_def pending_def)
    next
      case False
      with table st have "ls' = rest"
        and "s' = ?f\<lparr>in_table := True, current_type := ''table'', current_block := [line]\<rparr>"
        by (auto simp add: seg_step_def Let_def flush_current_fields)
      with False table tl show ?thesis
        using pf' [of "line # rest"]
        by (simp add: seg_ok_def pending_def flush_current_fields)
    qed
  next
    case table_end
    from table_end st have "ls' = line # rest"
      and "s' = s\<lparr>blocks := blocks s @ [mk_block (join_nl (current_block s)) ''table''],
           current_block := [], in_table := False, current_type := ''paragraph''\<rparr>"
      by (auto simp add: seg_step_def)
    with table_end tab ok show ?thesis
      using join_nl_flat [of "current_block s" "map content (blocks s)" "line # rest"]
      by (simp add: seg_ok_def pending_def mk_block_def)
  next
    case hr
    from hr st have "ls' = rest"
      and "s' = ?f\<lparr>blocks := blocks ?f @ [mk_block line ''hr''], current_type := ''paragraph''\<rparr>"
      by (auto simp add: seg_step_def Let_def)
    with hr tl(1) show ?thesis
      using pf' [of "line # rest"]
      by (simp add: seg_ok_def pending_def flush_current_fields mk_block_def)
  next
    case heading
    let ?hb = "line # takeWhile is_blank rest @ takeWhile para_line (dropWhile is_blank rest)"
    let ?r2 = "dropWhile para_line (dropWhile is_blank rest)"
    from heading st have l: "ls' = ?r2"
      and s: "s' = ?f\<lparr>blocks := blocks ?f @
            [mk_block (join_nl ?hb) (if match_step line then ''step'' else ''heading'')],
          current_type := ''paragraph''\<rparr>"
      by (auto simp add: seg_step_def Let_def)
    have "rest = (takeWhile is_blank rest @ takeWhile para_line (dropWhile is_blank rest)) @ ?r2"
      by simp
    with tl(1) have nf: "\<not> fence_after_table ?r2"
      using fence_after_table_suffix by metis
    have "pending s' ls' = pending ?f (?hb @ ?r2)"
      unfolding l s by (rule pending_emit) (simp_all add: flush_current_fields)
    also have "\<dots> = pending s (line # rest)"
      by (simp add: pf)
    finally show ?thesis
      using nf heading by (simp add: seg_ok_def l s flush_current_fields)
  next
    case list
    let ?lb = "collect_list rest [line]"
    from list st have l: "ls' = snd ?lb"
      and s: "s' = ?f\<lparr>blocks := blocks ?f @ [mk_block (join_nl (fst ?lb)) ''list''],
          current_type := ''paragraph''\<rparr>"
      by (auto simp add: seg_step_def Let_def)
    from collect_list_split [of rest "[line]"] obtain pre
      where fst: "fst ?lb = [line] @ pre" and rest: "rest = pre @ snd ?lb"
      by blast
    from rest tl(1) have nf: "\<not> fence_after_table (snd ?lb)"
      using fence_after_table_suffix by metis
    have "pending s' ls' = pending ?f (fst ?lb @ snd ?lb)"
      unfolding l s by (rule pending_emit) (simp_all add: flush_current_fields fst)
    also have "fst ?lb @ snd ?lb = line # rest"
      using fst rest by simp
    finally show ?thesis
      using nf list by (simp add: seg_ok_def l s flush_current_fields pf)
  next
    case other
    from other st have "ls' = rest" and "s' = s\<lparr>current_block := current_block s @ [line]\<rparr>"
      by (auto simp add: seg_step_def)
    with other tl(1) show ?thesis
      by (simp add: seg_ok_def pending_def)
  qed
qed


lemma parse_loop_lossless: "seg_ok ls s \<Longrightarrow> pending (parse_loop ls s) [] = pending s ls"
proof (induction ls s rule: parse_loop.induct)
  case (1 s)
  then show ?case by (simp add: parse_loop.simps)
next
  case (2 line rest s)
  obtain ls' s' where st: "seg_step line rest s = (ls', s')"
    by (cases "seg_step line rest s")
  from seg_step_lossless [OF "2.prems" st]
  have ok: "seg_ok ls' s'" and p: "pending s' ls' = pending s (line # rest)"
    by simp_all
  from "2.IH" [OF st [symmetric] ok] p st show ?case
    by (simp add: parse_loop.simps)
qed

text \<open>
  C2, as amended: for a text in which no fence line comes right after a table row, the
  contents of the emitted blocks, followed by the lines of the trailing buffer when the
  final flush discards it as white space, joined by newlines, are the text.  When nothing
  is discarded the blocks alone give back the text.
\<close>

theorem segmentation_lossless:
  assumes "\<not> fence_after_table (split_nl text)"
  shows "join_nl (map content (parse_content_blocks text) @ dropped_tail text) = text"
proof -
  let ?s = "parse_loop (split_nl text) seg_init"
  from assms have "seg_ok (split_nl text) seg_init"
    by (simp add: seg_ok_def seg_init_def)
  then have "pending ?s [] = pending seg_init (split_nl text)"
    by (rule parse_loop_lossless)
  then have p: "join_nl (map content (blocks ?s) @ current_block ?s) = text"
    by (simp add: pending_def seg_init_def join_split_nl)
  show ?thesis
  proof (cases "current_block ?s = []")
    case True
    with p show ?thesis
      by (simp add: parse_content_blocks_def seg_finish_def dropped_tail_def)
  next
    case False
    show ?thesis
    proof (cases "strip (join_nl (current_block ?s)) = []")
      case True
      with False p show ?thesis
        by (simp add: parse_content_blocks_def seg_finish_def dropped_tail_def)
    next
      case False
      with \<open>current_block ?s \<noteq> []\<close> p show ?thesis
        using join_nl_flat [of "current_block ?s" "map content (blocks ?s)" "[]"]
        by (simp add: parse_content_blocks_def seg_finish_def dropped_tail_def mk_block_def)
    qed
  qed
qed

text \<open>
  The same at the text \<open>a\<close>, newline, \<open>---\<close>, newline, where the discarded buffer is
  the empty last line.
\<close>

theorem segmentation_lossless_witness:
  "\<not> fence_after_table
       (split_nl [CHR ''a'', CHR 0x0A, CHR ''-'', CHR ''-'', CHR ''-'', CHR 0x0A]) \<and>
   join_nl
     (map content
        (parse_content_blocks [CHR ''a'', CHR 0x0A, CHR ''-'', CHR ''-'', CHR ''-'', CHR 0x0A]) @
      dropped_tail [CHR ''a'', CHR 0x0A, CHR ''-'', CHR ''-'', CHR ''-'', CHR 0x0A]) =
   [CHR ''a'', CHR 0x0A, CHR ''-'', CHR ''-'', CHR ''-'', CHR 0x0A]"
proof -
  have h: "\<not> fence_after_table
      (split_nl [CHR ''a'', CHR 0x0A, CHR ''-'', CHR ''-'', CHR ''-'', CHR 0x0A])"
    by (simp add: nl_def is_table_line_def is_fence_def strip_def is_space_def)
  from segmentation_lossless [OF h] h show ?thesis
    by simp
qed

text \<open>
  C2 as stated fails at that text: the blocks are \<open>a\<close> and \<open>---\<close>, and joining them
  loses the final newline.
\<close>

theorem segmentation_lossless_counterexample:
  "parse_content_blocks [CHR ''a'', CHR 0x0A, CHR ''-'', CHR ''-'', CHR ''-'', CHR 0x0A] =
     [\<lparr>content = ''a'', block_type = ''paragraph'', char_count = 1\<rparr>,
      \<lparr>content = ''---'', block_type = ''hr'', char_count = 3\<rparr>] \<and>
   join_nl
     (map content
        (parse_content_blocks [CHR ''a'', CHR 0x0A, CHR ''-'', CHR ''-'', CHR ''-'', CHR 0x0A])) \<noteq>
   [CHR ''a'', CHR 0x0A, CHR ''-'', CHR ''-'', CHR ''-'', CHR 0x0A]"
  by (simp add: seg_eval)


lemma strip_Nil_iff: "strip s = [] \<longleftrightarrow> (\<forall>c \<in> set s. is_space c)"
proof
  assume "strip s = []"
  then have "dropWhile is_space (rev (dropWhile is_space s)) = []"
    by (simp add: strip_def)
  then have all: "\<forall>c \<in> set (dropWhile is_space s). is_space c"
    by (simp add: dropWhile_eq_Nil_conv)
  have "dropWhile is_space s = []"
  proof (rule ccontr)
    assume ne: "dropWhile is_space s \<noteq> []"
    then have "\<not> is_space (hd (dropWhile is_space s))"
      by (rule hd_dropWhile)
    moreover from ne have "hd (dropWhile is_space s) \<in> set (dropWhile is_space s)"
      by (rule hd_in_set)
    ultimately show False using all by blast
  qed
  then show "\<forall>c \<in> set s. is_space c"
    by (simp add: dropWhile_eq_Nil_conv)
next
  assume "\<forall>c \<in> set s. is_space c"
  then have "dropWhile is_space s = []" by simp
  then show "strip s = []" by (simp add: strip_def del: dropWhile_eq_Nil_conv)
qed

lemma table_line_not_blank: "is_table_line l \<Longrightarrow> strip l \<noteq> []"
  by (auto simp add: is_table_line_def)

lemma fence_not_table: "is_fence l \<Longrightarrow> \<not> is_table_line l"
  by (cases "strip l") (auto simp add: is_fence_def is_table_line_def)

lemma join_nl_set: "l \<in> set ls \<Longrightarrow> set l \<subseteq> set (join_nl ls)"
  by (induction ls rule: join_nl.induct) auto

lemma table_run_not_blank:
  assumes "tbl \<noteq> []" "\<forall>l \<in> set tbl. is_table_line l"
  shows "strip (join_nl tbl) \<noteq> []"
proof -
  from assms obtain l where l: "l \<in> set tbl" "is_table_line l"
    by (cases tbl) auto
  then obtain c where "c \<in> set l" "\<not> is_space c"
    using table_line_not_blank strip_Nil_iff by blast
  with l join_nl_set [of l tbl] show ?thesis
    by (auto simp add: strip_Nil_iff)
qed

lemma seg_step_classifies:
  assumes "\<not> in_code_block s" "\<not> (in_table s \<and> is_fence line)"
  shows "in_table (snd (seg_step line rest s)) = is_table_line line"
  using assms fence_not_table [of line]
  by (auto simp add: seg_step_def Let_def flush_current_fields)

lemma table_run_continue:
  "\<forall>l \<in> set tbl. is_table_line l \<Longrightarrow> \<not> in_code_block t \<Longrightarrow> in_table t \<Longrightarrow>
   parse_loop (tbl @ ls) t = parse_loop ls (t\<lparr>current_block := current_block t @ tbl\<rparr>)"
proof (induction tbl arbitrary: t)
  case Nil
  then show ?case by simp
next
  case (Cons l tbl)
  then have "\<not> is_fence l"
    using fence_not_table by auto
  with Cons.prems have st: "seg_step l (tbl @ ls) t = (tbl @ ls, t\<lparr>current_block := current_block t @ [l]\<rparr>)"
    by (simp add: seg_step_def)
  have "parse_loop (tbl @ ls) (t\<lparr>current_block := current_block t @ [l]\<rparr>) =
      parse_loop ls (t\<lparr>current_block := current_block t @ [l]\<rparr>
        \<lparr>current_block := current_block (t\<lparr>current_block := current_block t @ [l]\<rparr>) @ tbl\<rparr>)"
    using Cons.prems by (intro Cons.IH) simp_all
  with st show ?case
    by (simp add: parse_loop.simps)
qed

lemma table_run_start:
  assumes tbl: "tbl \<noteq> []" "\<forall>l \<in> set tbl. is_table_line l"
    and s: "\<not> in_code_block s" "\<not> in_table s"
  shows "parse_loop (tbl @ ls) s =
    parse_loop ls ((flush_current s)\<lparr>in_table := True, current_type := ''table'',
      current_block := tbl\<rparr>)"
proof -
  from tbl obtain l tbl' where t: "tbl = l # tbl'" "is_table_line l" "\<forall>l \<in> set tbl'. is_table_line l"
    by (cases tbl) auto
  then have nf: "\<not> is_fence l"
    using fence_not_table by auto
  let ?t = "(flush_current s)\<lparr>in_table := True, current_type := ''table'', current_block := [l]\<rparr>"
  from nf t s have "seg_step l (tbl' @ ls) s = (tbl' @ ls, ?t)"
    by (simp add: seg_step_def Let_def flush_current_fields)
  then have "parse_loop (tbl @ ls) s = parse_loop (tbl' @ ls) ?t"
    by (simp add: t parse_loop.simps)
  also have "\<dots> = parse_loop ls (?t\<lparr>current_block := current_block ?t @ tbl'\<rparr>)"
    using t s by (intro table_run_continue) (simp_all add: flush_current_fields)
  finally show ?thesis by (simp add: t)
qed

text \<open>
  C8, as amended.  Outside a fenced block, and unless a fence line meets an open table, a
  line leaves the segmenter in a table exactly when the line, stripped of surrounding white
  space, begins with the table delimiter; no further delimiter is asked for.  A run of
  such lines met outside a table becomes one table block, after the flush of the current
  buffer, as soon as the input ends or a line follows that is neither a table row nor a
  fence; the segmenter goes on from that line outside the table.
\<close>

theorem table_rows:
  "(\<not> in_code_block s \<and> \<not> (in_table s \<and> is_fence line) \<longrightarrow>
      in_table (snd (seg_step line rest s)) = is_table_line line) \<and>
   (tbl \<noteq> [] \<and> (\<forall>l \<in> set tbl. is_table_line l) \<and> \<not> in_code_block s \<and> \<not> in_table s \<and>
    (case ls of [] \<Rightarrow> True | l # _ \<Rightarrow> \<not> is_table_line l \<and> \<not> is_fence l) \<longrightarrow>
      seg_finish (parse_loop (tbl @ ls) s) =
      seg_finish (parse_loop ls
        ((flush_current s)\<lparr>blocks := blocks (flush_current s) @ [mk_block (join_nl tbl) ''table''],
           current_block := [], in_table := False, current_type := ''paragraph''\<rparr>)))"
proof (intro conjI impI)
  assume "\<not> in_code_block s \<and> \<not> (in_table s \<and> is_fence line)"
  then show "in_table (snd (seg_step line rest s)) = is_table_line line"
    using seg_step_classifies by blast
next
  assume a: "tbl \<noteq> [] \<and> (\<forall>l \<in> set tbl. is_table_line l) \<and> \<not> in_code_block s \<and> \<not> in_table s \<and>
    (case ls of [] \<Rightarrow> True | l # _ \<Rightarrow> \<not> is_table_line l \<and> \<not> is_fence l)"
  let ?f = "flush_current s"
  let ?t = "?f\<lparr>in_table := True, current_type := ''table'', current_block := tbl\<rparr>"
  let ?u = "?f\<lparr>blocks := blocks ?f @ [mk_block (join_nl tbl) ''table''],
           current_block := [], in_table := False, current_type := ''paragraph''\<rparr>"
  from a have run: "parse_loop (tbl @ ls) s = parse_loop ls ?t"
    by (intro table_run_start) simp_all
  show "seg_finish (parse_loop (tbl @ ls) s) = seg_finish (parse_loop ls ?u)"
  proof (cases ls)
    case Nil
    from a have "strip (join_nl tbl) \<noteq> []"
      by (intro table_run_not_blank) simp_all
    with a Nil run show ?thesis
      by (simp add: parse_loop.simps seg_finish_def flush_current_fields)
  next
    case (Cons l rest')
    with a have "seg_step l rest' ?t = (l # rest', ?u)"
      by (simp add: seg_step_def flush_current_fields)
    then have "parse_loop (l # rest') ?t = parse_loop (l # rest') ?u"
      by (simp add: parse_loop.simps)
    with run Cons show ?thesis by simp
  qed
qed


text \<open>
  The same at the initial state: the line \<open>| x\<close>, and the two rows \<open>|a|b|\<close> and
  \<open>|-|-|\<close> followed by the line \<open>text\<close>.
\<close>

theorem table_rows_witness:
  "\<not> in_code_block seg_init \<and> \<not> (in_table seg_init \<and> is_fence ''| x'') \<and>
   in_table (snd (seg_step ''| x'' [] seg_init)) = is_table_line ''| x'' \<and>
   is_table_line ''| x'' \<and>
   [''|a|b|'', ''|-|-|''] \<noteq> [] \<and> is_table_line ''|a|b|'' \<and> is_table_line ''|-|-|'' \<and>
   \<not> in_table seg_init \<and> \<not> is_table_line ''text'' \<and> \<not> is_fence ''text'' \<and>
   seg_finish (parse_loop ([''|a|b|'', ''|-|-|''] @ [''text'']) seg_init) =
   seg_finish (parse_loop [''text'']
     ((flush_current seg_init)\<lparr>blocks := blocks (flush_current seg_init) @
         [mk_block (join_nl [''|a|b|'', ''|-|-|'']) ''table''],
       current_block := [], in_table := False, current_type := ''paragraph''\<rparr>))"
proof -
  have h1: "\<not> in_code_block seg_init \<and> \<not> (in_table seg_init \<and> is_fence ''| x'')"
    by (simp add: seg_init_def)
  have h2: "[''|a|b|'', ''|-|-|''] \<noteq> [] \<and>
      (\<forall>l \<in> set [''|a|b|'', ''|-|-|'']. is_table_line l) \<and>
      \<not> in_code_block seg_init \<and> \<not> in_table seg_init \<and>
      (case [''text''] of [] \<Rightarrow> True | l # _ \<Rightarrow> \<not> is_table_line l \<and> \<not> is_fence l)"
    by (simp add: seg_init_def is_table_line_def is_fence_def strip_def is_space_def)
  have t: "is_table_line ''| x''"
    by (simp add: is_table_line_def strip_def is_space_def)
  from table_rows [of seg_init "''| x''" "[]" "[''|a|b|'', ''|-|-|'']" "[''text'']"] h1 h2 t
  show ?thesis
    by simp
qed

text \<open>
  C8 as stated fails: the line \<open>| x\<close> has no delimiter after the first one, and the
  segmenter makes a table block of it.
\<close>

theorem table_rows_counterexample:
  "\<not> spec_table_row ''| x'' \<and>
   parse_content_blocks ''| x'' = [\<lparr>content = ''| x'', block_type = ''table'', char_count = 3\<rparr>]"
  by (simp add: spec_table_row_def seg_eval)

end
